theory Spec2Isabelle
  imports Main
begin

section \<open>Text primitives of the anonymizer\<close>

text \<open>
  The program is \<^verbatim>\<open>src/main.py\<close>. Its text values are Python \<^verbatim>\<open>str\<close>; here a
  \<^verbatim>\<open>str\<close> is a \<^typ>\<open>string\<close> whose characters are the code points 0..255. The input
  file is taken as the text its bytes decode to (encoding detection and decoding, lines
  36 to 42, are outside this development); the value called \<^verbatim>\<open>email_content\<close> is
  what \<^verbatim>\<open>f.read()\<close> makes of that text (lines 45 and 46).
\<close>

abbreviation LF :: char where "LF \<equiv> CHR 0x0A"
abbreviation CR :: char where "CR \<equiv> CHR 0x0D"

text \<open>\<^verbatim>\<open>s.startswith(p)\<close>.\<close>

definition startswith :: "string \<Rightarrow> string \<Rightarrow> bool" where
  "startswith s p = (take (length p) s = p)"

text \<open>\<^verbatim>\<open>sep in s\<close>: some suffix of \<open>s\<close> starts with \<open>sep\<close>.\<close>

fun contains :: "string \<Rightarrow> string \<Rightarrow> bool" where
  "contains [] sep = (sep = [])"
| "contains (x # xs) sep = (startswith (x # xs) sep \<or> contains xs sep)"

text \<open>
  \<^verbatim>\<open>s.split(sep, 1)\<close> for a non-empty \<open>sep\<close>: the text before and after the first
  occurrence of \<open>sep\<close>, or the one-element list \<^verbatim>\<open>[s]\<close> when there is none
  (\<open>None\<close> here; unpacking it into two names raises \<^verbatim>\<open>ValueError\<close>).
\<close>

fun split_once :: "string \<Rightarrow> string \<Rightarrow> (string \<times> string) option" where
  "split_once [] sep = None"
| "split_once (x # xs) sep =
     (if startswith (x # xs) sep then Some ([], drop (length sep) (x # xs))
      else (case split_once xs sep of
              None \<Rightarrow> None
            | Some (before, after) \<Rightarrow> Some (x # before, after)))"

text \<open>
  \<^verbatim>\<open>str.splitlines()\<close>. The line boundaries among the code points 0..255 are
  LF, CR, CR LF (one boundary), VT, FF, FS, GS, RS and NEL; the boundary is not kept,
  and a final boundary opens no further, empty line.
\<close>

definition is_linebreak :: "char \<Rightarrow> bool" where
  "is_linebreak c =
     (c = LF \<or> c = CR \<or> c = CHR 0x0B \<or> c = CHR 0x0C \<or> c = CHR 0x1C \<or> c = CHR 0x1D
      \<or> c = CHR 0x1E \<or> c = CHR 0x85)"

fun splitlines :: "string \<Rightarrow> string list" where
  "splitlines [] = []"
| "splitlines (c # cs) =
     (if is_linebreak c then
        [] # splitlines (if c = CR \<and> startswith cs [LF] then tl cs else cs)
      else (case splitlines cs of
              [] \<Rightarrow> [[c]]
            | l # ls \<Rightarrow> (c # l) # ls))"

text \<open>\<^verbatim>\<open>sep.join(lines)\<close>.\<close>

fun join :: "string \<Rightarrow> string list \<Rightarrow> string" where
  "join sep [] = []"
| "join sep [l] = l"
| "join sep (l # m # ls) = l @ sep @ join sep (m # ls)"

text \<open>
  Reading in text mode. Line 45 opens the input with \<^verbatim>\<open>open(input_file, 'r',
  encoding=encoding)\<close>, without a \<^verbatim>\<open>newline\<close> argument: \<^verbatim>\<open>f.read()\<close> then gives
  the decoded text with every CR LF and every other CR turned into LF.
\<close>

fun universal_newlines :: "string \<Rightarrow> string" where
  "universal_newlines [] = []"
| "universal_newlines (c # cs) =
     (if c = CR then LF # universal_newlines (if startswith cs [LF] then tl cs else cs)
      else c # universal_newlines cs)"

text \<open>
  \<^verbatim>\<open>str.lower()\<close> on the code points 0..255: A..Z and the capital letters
  0xC0..0xDE (0xD7, the multiplication sign, apart) move up by 32; nothing else changes.
\<close>

definition lower_char :: "char \<Rightarrow> char" where
  "lower_char c =
     (let n = (of_char c :: nat) in
      if (65 \<le> n \<and> n \<le> 90) \<or> (192 \<le> n \<and> n \<le> 222 \<and> n \<noteq> 215)
      then char_of (n + 32) else c)"

definition lower :: "string \<Rightarrow> string" where
  "lower s = map lower_char s"

section \<open>Regular expressions as \<^verbatim>\<open>re\<close> matches them\<close>

text \<open>
  The two patterns of lines 66 and 68 are regular expressions of the \<^verbatim>\<open>re\<close> module,
  a backtracking matcher: alternatives are tried left to right, \<^verbatim>\<open>?\<close> and \<^verbatim>\<open>+\<close>
  are greedy, and the first way through the pattern that succeeds is the match. The
  syntax below covers what the two patterns use.
\<close>

datatype regex =
    Chr char                        \<comment> \<open>a literal character\<close>
  | Cls "(char \<times> char) list"       \<comment> \<open>a set \<^verbatim>\<open>[...]\<close> of ranges (a single character is a range)\<close>
  | Bnd                             \<comment> \<open>\<^verbatim>\<open>\b\<close>\<close>
  | Seq regex regex
  | Alt regex regex                 \<comment> \<open>\<^verbatim>\<open>r|s\<close>\<close>
  | Opt regex                       \<comment> \<open>\<^verbatim>\<open>r?\<close>\<close>
  | Plus regex                      \<comment> \<open>\<^verbatim>\<open>r+\<close>\<close>
  | Times nat regex                 \<comment> \<open>\<^verbatim>\<open>r{n}\<close>\<close>
  | Group regex                     \<comment> \<open>\<^verbatim>\<open>(r)\<close> and \<^verbatim>\<open>(?:r)\<close>\<close>

text \<open>
  \<^verbatim>\<open>\w\<close> of a \<^verbatim>\<open>str\<close> pattern: the underscore and every alphanumeric character
  (\<^verbatim>\<open>str.isalnum\<close>), which among the code points 0..255 are the ASCII letters and
  digits, the letters 0xAA, 0xB5, 0xBA, 0xC0..0xFF without 0xD7 and 0xF7, the superscript
  digits 0xB2, 0xB3, 0xB9 and the fractions 0xBC..0xBE.
\<close>

definition is_word :: "char \<Rightarrow> bool" where
  "is_word c =
     (let n = (of_char c :: nat) in
      (48 \<le> n \<and> n \<le> 57) \<or> (65 \<le> n \<and> n \<le> 90) \<or> n = 95 \<or> (97 \<le> n \<and> n \<le> 122)
      \<or> n = 170 \<or> n = 178 \<or> n = 179 \<or> n = 181 \<or> n = 185 \<or> n = 186
      \<or> (188 \<le> n \<and> n \<le> 190) \<or> (192 \<le> n \<and> n \<le> 214) \<or> (216 \<le> n \<and> n \<le> 246)
      \<or> (248 \<le> n \<and> n \<le> 255))"

definition in_class :: "(char \<times> char) list \<Rightarrow> char \<Rightarrow> bool" where
  "in_class rs c =
     list_ex (\<lambda>(lo, hi). (of_char lo :: nat) \<le> of_char c \<and> (of_char c :: nat) \<le> of_char hi) rs"

text \<open>
  A position in the subject string: the character before it, if any, and the text
  from it on.
\<close>

type_synonym cursor = "char option \<times> string"

definition at_boundary :: "cursor \<Rightarrow> bool" where
  "at_boundary cur =
     ((case fst cur of None \<Rightarrow> False | Some c \<Rightarrow> is_word c)
      \<noteq> (case snd cur of [] \<Rightarrow> False | c # _ \<Rightarrow> is_word c))"

primrec rsize :: "regex \<Rightarrow> nat" where
  "rsize (Chr c) = 1"
| "rsize (Cls rs) = 1"
| "rsize Bnd = 1"
| "rsize (Seq r s) = Suc (rsize r + rsize s)"
| "rsize (Alt r s) = Suc (rsize r + rsize s)"
| "rsize (Opt r) = Suc (rsize r)"
| "rsize (Plus r) = Suc (rsize r)"
| "rsize (Times n r) = Suc (n + rsize r)"
| "rsize (Group r) = Suc (rsize r)"

text \<open>
  \<open>matches r cur\<close> lists the positions at which a match of \<open>r\<close> starting at
  \<open>cur\<close> can end, in the order in which the backtracking matcher reaches them. An
  iteration of \<^verbatim>\<open>+\<close> that consumed nothing is not iterated again.
\<close>

function matches :: "regex \<Rightarrow> cursor \<Rightarrow> cursor list" where
  "matches (Chr c) (p, xs) =
     (case xs of [] \<Rightarrow> [] | x # xs' \<Rightarrow> if x = c then [(Some x, xs')] else [])"
| "matches (Cls rs) (p, xs) =
     (case xs of [] \<Rightarrow> [] | x # xs' \<Rightarrow> if in_class rs x then [(Some x, xs')] else [])"
| "matches Bnd (p, xs) = (if at_boundary (p, xs) then [(p, xs)] else [])"
| "matches (Seq r s) (p, xs) = concat (map (matches s) (matches r (p, xs)))"
| "matches (Alt r s) (p, xs) = matches r (p, xs) @ matches s (p, xs)"
| "matches (Opt r) (p, xs) = matches r (p, xs) @ [(p, xs)]"
| "matches (Plus r) (p, xs) =
     concat (map (\<lambda>(q, ys). if length ys < length xs
                              then matches (Plus r) (q, ys) @ [(q, ys)]
                              else [(q, ys)])
                 (matches r (p, xs)))"
| "matches (Times 0 r) (p, xs) = [(p, xs)]"
| "matches (Times (Suc n) r) (p, xs) = concat (map (matches (Times n r)) (matches r (p, xs)))"
| "matches (Group r) (p, xs) = matches r (p, xs)"
  by pat_completeness auto
termination
  by (relation "inv_image (less_than <*lex*> less_than) (\<lambda>(r, (p, xs)). (rsize r, length xs))")
     auto

declare matches.simps [simp del]

lemma matches_suffix:
  "e \<in> set (matches r c) \<Longrightarrow> \<exists>m. snd c = m @ snd e"
proof (induction r c arbitrary: e rule: matches.induct)
  case (1 c p xs)
  then show ?case by (cases xs) (simp_all add: matches.simps(1) split: if_splits)
next
  case (2 rs p xs)
  then show ?case by (cases xs) (simp_all add: matches.simps(2) split: if_splits)
next
  case (3 p xs)
  then show ?case by (simp add: matches.simps(3) split: if_splits)
next
  case (4 r s p xs)
  from "4.prems" have "e \<in> set (concat (map (matches s) (matches r (p, xs))))"
    by (simp only: matches.simps(4))
  then obtain x where x: "x \<in> set (matches r (p, xs))" and e: "e \<in> set (matches s x)"
    by auto
  from "4.IH"(1)[OF x] obtain m1 where m1: "xs = m1 @ snd x" by auto
  from "4.IH"(2)[OF x e] obtain m2 where m2: "snd x = m2 @ snd e" by auto
  from m1 m2 have "xs = (m1 @ m2) @ snd e" by simp
  then show ?case by (simp del: append_assoc)
next
  case (5 r s p xs)
  from "5.prems" have "e \<in> set (matches r (p, xs)) \<or> e \<in> set (matches s (p, xs))"
    by (simp add: matches.simps(5))
  then show ?case
  proof
    assume "e \<in> set (matches r (p, xs))" from "5.IH"(1)[OF this] show ?thesis .
  next
    assume "e \<in> set (matches s (p, xs))" from "5.IH"(2)[OF this] show ?thesis .
  qed
next
  case (6 r p xs)
  from "6.prems" have "e \<in> set (matches r (p, xs)) \<or> e = (p, xs)"
    by (auto simp add: matches.simps(6))
  then show ?case
  proof
    assume "e \<in> set (matches r (p, xs))" from "6.IH"[OF this] show ?thesis .
  next
    assume "e = (p, xs)" then show ?thesis by simp
  qed
next
  case (7 r p xs)
  let ?f = "\<lambda>(q, ys). if length ys < length xs
                        then matches (Plus r) (q, ys) @ [(q, ys)] else [(q, ys)]"
  from "7.prems" have "e \<in> set (concat (map ?f (matches r (p, xs))))"
    by (subst (asm) matches.simps(7))
  then obtain x where x: "x \<in> set (matches r (p, xs))" and e: "e \<in> set (?f x)"
    by auto
  obtain q ys where xeq: "x = (q, ys)" by (cases x)
  from "7.IH"(1)[OF x] xeq obtain m1 where m1: "xs = m1 @ ys" by auto
  show ?case
  proof (cases "e = (q, ys)")
    case True
    with m1 show ?thesis by simp
  next
    case False
    have lt: "length ys < length xs"
    proof (rule ccontr)
      assume "\<not> length ys < length xs"
      with e xeq have "e = (q, ys)" by simp
      with False show False by simp
    qed
    with e xeq False have e': "e \<in> set (matches (Plus r) (q, ys))" by simp
    from "7.IH"(2)[OF x xeq[symmetric] lt e'] obtain m2 where "ys = m2 @ snd e" by auto
    with m1 have "xs = (m1 @ m2) @ snd e" by simp
    then show ?thesis by (simp del: append_assoc)
  qed
next
  case (8 r p xs)
  then show ?case by (simp add: matches.simps(8))
next
  case (9 n r p xs)
  from "9.prems" have "e \<in> set (concat (map (matches (Times n r)) (matches r (p, xs))))"
    by (simp only: matches.simps(9))
  then obtain x where x: "x \<in> set (matches r (p, xs))"
    and e: "e \<in> set (matches (Times n r) x)"
    by auto
  from "9.IH"(1)[OF x] obtain m1 where m1: "xs = m1 @ snd x" by auto
  from "9.IH"(2)[OF x e] obtain m2 where m2: "snd x = m2 @ snd e" by auto
  from m1 m2 have "xs = (m1 @ m2) @ snd e" by simp
  then show ?case by (simp del: append_assoc)
next
  case (10 r p xs)
  from "10.prems" have "e \<in> set (matches r (p, xs))" by (simp add: matches.simps(10))
  from "10.IH"[OF this] show ?case .
qed

text \<open>
  The first match at a position: the first end the matcher reaches. When
  \<open>must_advance\<close> is set (the previous match was empty and ended here) an empty match
  at this position is rejected and the matcher backtracks to the next candidate.
\<close>

definition first_match :: "regex \<Rightarrow> bool \<Rightarrow> cursor \<Rightarrow> cursor option" where
  "first_match r must_advance cur =
     (case filter (\<lambda>(q, ys). \<not> (must_advance \<and> length ys = length (snd cur))) (matches r cur) of
        [] \<Rightarrow> None
      | e # _ \<Rightarrow> Some e)"

lemma first_match_shorter:
  assumes "first_match r adv (p, xs) = Some (q, ys)"
  shows "length ys \<le> length xs" and "adv \<Longrightarrow> length ys < length xs"
proof -
  let ?P = "\<lambda>(q, ys). \<not> (adv \<and> length ys = length xs)"
  from assms obtain rest where eq: "filter ?P (matches r (p, xs)) = (q, ys) # rest"
    by (auto simp: first_match_def split: list.splits)
  have "(q, ys) \<in> set (filter ?P (matches r (p, xs)))"
    unfolding eq by simp
  then have mem: "(q, ys) \<in> set (matches r (p, xs))" and ok: "\<not> (adv \<and> length ys = length xs)"
    by auto
  from matches_suffix[OF mem] obtain m where "xs = m @ ys" by auto
  then show le: "length ys \<le> length xs" by simp
  show "length ys < length xs" if adv using ok le that by auto
qed

lemma first_match_measure:
  assumes "first_match r adv (p, xs) = Some e"
  shows "2 * length (snd e) + (if length (snd e) = length xs then 0 else 1)
         < 2 * length xs + (if adv then 0 else (1::nat))"
proof -
  obtain q ys where e: "e = (q, ys)" by (cases e)
  from first_match_shorter[OF assms[unfolded e]] show ?thesis
    unfolding e by (cases adv) auto
qed

text \<open>
  \<^verbatim>\<open>re.sub(pattern, repl, string)\<close> scans the string from the left and collects
  pieces: where the pattern matches, the match (to be replaced), after which the scan
  goes on behind it; elsewhere one character, copied. The result is the pieces put
  together, each match rendered as \<open>repl\<close>. This is \<^verbatim>\<open>re.sub\<close> for a
  replacement without a backslash (such a template is the literal string); the values
  of Faker's \<^verbatim>\<open>ipv4()\<close> and \<^verbatim>\<open>domain_name()\<close> contain no backslash.
\<close>

datatype piece = Matched string | Copied char

function sub_scan :: "regex \<Rightarrow> bool \<Rightarrow> cursor \<Rightarrow> piece list" where
  "sub_scan r must_advance (p, xs) =
     (case first_match r must_advance (p, xs) of
        Some e \<Rightarrow> Matched (take (length xs - length (snd e)) xs)
                  # sub_scan r (length (snd e) = length xs) e
      | None \<Rightarrow> (case xs of
                  [] \<Rightarrow> []
                | x # xs' \<Rightarrow> Copied x # sub_scan r False (Some x, xs')))"
  by pat_completeness auto
termination
proof (relation "measure (\<lambda>(r, adv, e). 2 * length (snd e) + (if adv then 0 else 1))")
  show "wf (measure (\<lambda>(r, adv, e). 2 * length (snd e) + (if adv then 0 else (1::nat))))"
    by (rule wf_measure)
next
  fix r :: regex and must_advance and p :: "char option" and xs :: string and x2 :: cursor
  assume "first_match r must_advance (p, xs) = Some x2"
  from first_match_measure[OF this]
  show "((r, length (snd x2) = length xs, x2), r, must_advance, p, xs)
        \<in> measure (\<lambda>(r, adv, e). 2 * length (snd e) + (if adv then 0 else 1))"
    by (simp only: in_measure prod.case snd_conv)
next
  fix r :: regex and must_advance and p :: "char option"
    and xs x22 :: string and x21 :: char
  assume "xs = x21 # x22"
  then show "((r, False, Some x21, x22), r, must_advance, p, xs)
        \<in> measure (\<lambda>(r, adv, e). 2 * length (snd e) + (if adv then 0 else 1))"
    by (cases must_advance) simp_all
qed

declare sub_scan.simps [simp del]

definition render :: "string \<Rightarrow> piece list \<Rightarrow> string" where
  "render repl ps = concat (map (\<lambda>pc. case pc of Matched m \<Rightarrow> repl | Copied c \<Rightarrow> [c]) ps)"

definition re_sub :: "regex \<Rightarrow> string \<Rightarrow> string \<Rightarrow> string" where
  "re_sub r repl s = render repl (sub_scan r False (None, s))"

text \<open>
  Line 66: \<^verbatim>\<open>\b(?:(?:25[0-5]|2[0-4][0-9]|[01]?[0-9][0-9]?)\.){3}(?:25[0-5]|2[0-4][0-9]|[01]?[0-9][0-9]?)\b\<close>,
  and line 68: \<^verbatim>\<open>\[?([a-zA-Z0-9.-]+)\]?\<close>.
\<close>

definition digit :: regex where "digit = Cls [(CHR ''0'', CHR ''9'')]"

definition octet :: regex where
  "octet =
     Group (Alt (Seq (Chr CHR ''2'') (Seq (Chr CHR ''5'') (Cls [(CHR ''0'', CHR ''5'')])))
           (Alt (Seq (Chr CHR ''2'') (Seq (Cls [(CHR ''0'', CHR ''4'')]) digit))
                (Seq (Opt (Cls [(CHR ''0'', CHR ''1'')])) (Seq digit (Opt digit)))))"

definition ip_address_pattern :: regex where
  "ip_address_pattern =
     Seq Bnd (Seq (Times 3 (Group (Seq octet (Chr CHR ''.'')))) (Seq octet Bnd))"

definition hostname_pattern :: regex where
  "hostname_pattern =
     Seq (Opt (Chr CHR ''[''))
         (Seq (Group (Plus (Cls [(CHR ''a'', CHR ''z''), (CHR ''A'', CHR ''Z''), (CHR ''0'', CHR ''9''),
                                 (CHR ''.'', CHR ''.''), (CHR ''-'', CHR ''-'')])))
              (Opt (Chr CHR '']'')))"

section \<open>The synthetic value provider\<close>

text \<open>
  \<^verbatim>\<open>fake = Faker()\<close> (line 60) is a generator with internal state. It is a parameter
  here: each of its methods takes the generator state and returns the value and the
  next state. \<open>fake_date_time\<close> and \<open>fake_uuid4\<close> return the text that the f-strings
  of lines 84 and 87 insert.
\<close>

record 'g faker =
  fake_ipv4 :: "'g \<Rightarrow> string \<times> 'g"
  fake_domain_name :: "'g \<Rightarrow> string \<times> 'g"
  fake_uuid4 :: "'g \<Rightarrow> string \<times> 'g"
  fake_date_time :: "'g \<Rightarrow> string \<times> 'g"
  fake_name :: "'g \<Rightarrow> string \<times> 'g"
  fake_email :: "'g \<Rightarrow> string \<times> 'g"

section \<open>\<^verbatim>\<open>anonymize_email_headers\<close>\<close>

text \<open>Lines 66 to 69: the two substitutions on a Received header.\<close>

definition obfuscate_received_header :: "'g faker \<Rightarrow> string \<Rightarrow> 'g \<Rightarrow> string \<times> 'g" where
  "obfuscate_received_header fake header g =
     (let (ip, g1) = fake_ipv4 fake g;
          header1 = re_sub ip_address_pattern ip header;
          (dom, g2) = fake_domain_name fake g1;
          header2 = re_sub hostname_pattern dom header1
      in (header2, g2))"

text \<open>
  Lines 63 to 97, one pass of the loop body: \<open>None\<close> is \<^verbatim>\<open>continue\<close> (nothing is
  appended), \<open>Some l\<close> is \<^verbatim>\<open>anonymized_headers.append(l)\<close>.
\<close>

definition process_header ::
  "'g faker \<Rightarrow> bool \<Rightarrow> bool \<Rightarrow> string \<Rightarrow> 'g \<Rightarrow> string option \<times> 'g" where
  "process_header fake keep_x_mailer obfuscate_received header g =
     (if startswith (lower header) ''received:'' then
        (if obfuscate_received then
           (let (h, g1) = obfuscate_received_header fake header g in (Some h, g1))
         else (None, g))
      else if startswith (lower header) ''x-mailer:'' then
        (if keep_x_mailer then (Some header, g) else (None, g))
      else if startswith (lower header) ''message-id:'' then
        (let (u, g1) = fake_uuid4 fake g; (d, g2) = fake_domain_name fake g1
         in (Some (''Message-ID: <'' @ u @ ''@'' @ d @ ''>''), g2))
      else if startswith (lower header) ''date:'' then
        (let (t, g1) = fake_date_time fake g in (Some (''Date: '' @ t), g1))
      else if startswith (lower header) ''from:'' then
        (let (n, g1) = fake_name fake g; (e, g2) = fake_email fake g1
         in (Some (''From: '' @ n @ '' <'' @ e @ ''>''), g2))
      else if startswith (lower header) ''to:'' then
        (let (n, g1) = fake_name fake g; (e, g2) = fake_email fake g1
         in (Some (''To: '' @ n @ '' <'' @ e @ ''>''), g2))
      else if startswith (lower header) ''reply-to:'' then
        (let (n, g1) = fake_name fake g; (e, g2) = fake_email fake g1
         in (Some (''Reply-To: '' @ n @ '' <'' @ e @ ''>''), g2))
      else (Some header, g))"

text \<open>Lines 59 to 97: the loop over \<^verbatim>\<open>headers\<close>, building \<^verbatim>\<open>anonymized_headers\<close>.\<close>

fun process_headers ::
  "'g faker \<Rightarrow> bool \<Rightarrow> bool \<Rightarrow> string list \<Rightarrow> 'g \<Rightarrow> string list \<times> 'g" where
  "process_headers fake k ob [] g = ([], g)"
| "process_headers fake k ob (header # headers) g =
     (let (r, g1) = process_header fake k ob header g;
          (rs, g2) = process_headers fake k ob headers g1
      in ((case r of None \<Rightarrow> rs | Some l \<Rightarrow> l # rs), g2))"

text \<open>
  Lines 49 to 54: the separator, \<open>None\<close> when neither occurs (the \<^verbatim>\<open>return\<close> of
  line 54).
\<close>

definition header_end_marker :: "string \<Rightarrow> string option" where
  "header_end_marker email_content =
     (if contains email_content [LF, LF] then Some [LF, LF]
      else if contains email_content [CR, LF, CR, LF] then Some [CR, LF, CR, LF]
      else None)"

text \<open>
  Lines 49 to 100 on the text read from the input file. \<open>Raised\<close> is an exception
  inside the \<^verbatim>\<open>try\<close> block (here the \<^verbatim>\<open>ValueError\<close> of unpacking a split that
  found no separator), \<open>Assembled\<close> the text handed to \<^verbatim>\<open>f.write\<close>.
\<close>

datatype outcome = NoSeparator | Raised | Assembled string

definition anonymize_text :: "'g faker \<Rightarrow> bool \<Rightarrow> bool \<Rightarrow> string \<Rightarrow> 'g \<Rightarrow> outcome" where
  "anonymize_text fake keep_x_mailer obfuscate_received email_content g =
     (case header_end_marker email_content of
        None \<Rightarrow> NoSeparator
      | Some marker \<Rightarrow>
          (case split_once email_content marker of
             None \<Rightarrow> Raised
           | Some (header_part, body_part) \<Rightarrow>
               (let headers = splitlines header_part;
                    anonymized_headers =
                      fst (process_headers fake keep_x_mailer obfuscate_received headers g)
                in Assembled (join [LF] anonymized_headers @ marker @ body_part))))"

text \<open>
  What opening and decoding the input file gives (lines 36 to 46): no such file, another
  failure (an exception other than \<^verbatim>\<open>FileNotFoundError\<close>), or the decoded text, from
  which \<^verbatim>\<open>f.read()\<close> makes \<^verbatim>\<open>email_content\<close>.
\<close>

datatype input_file = Missing | Unreadable | Content string

text \<open>
  What \<^verbatim>\<open>open(output_file, 'w', encoding=encoding)\<close> of line 103 does: it raises
  \<^verbatim>\<open>FileNotFoundError\<close> (no such directory), it raises another exception (no
  permission, a directory), or it opens the file, which \<^verbatim>\<open>f.write\<close> then fills.
\<close>

datatype output_file = OutputNotFound | OutputRefused | OutputOpens

text \<open>The messages logged: lines 125, 109, 53, 111 and 106.\<close>

datatype event =
  ErrorInputDoesNotExist | ErrorInputNotFound | ErrorNoSeparator | ErrorException | InfoSaved

text \<open>
  \<^verbatim>\<open>anonymize_email_headers\<close>: the messages it logs and the text it hands to
  \<^verbatim>\<open>f.write\<close> (\<open>None\<close>: the output file is not opened). It returns normally in every
  case: each exception is caught at lines 108 and 110, and the handler of line 108
  also catches a \<^verbatim>\<open>FileNotFoundError\<close> of the output file.
\<close>

definition anonymize_email_headers ::
  "'g faker \<Rightarrow> input_file \<Rightarrow> output_file \<Rightarrow> bool \<Rightarrow> bool \<Rightarrow> 'g
   \<Rightarrow> event list \<times> string option" where
  "anonymize_email_headers fake input output keep_x_mailer obfuscate_received g =
     (case input of
        Missing \<Rightarrow> ([ErrorInputNotFound], None)
      | Unreadable \<Rightarrow> ([ErrorException], None)
      | Content decoded \<Rightarrow>
          (let email_content = universal_newlines decoded in
           case anonymize_text fake keep_x_mailer obfuscate_received email_content g of
             NoSeparator \<Rightarrow> ([ErrorNoSeparator], None)
           | Raised \<Rightarrow> ([ErrorException], None)
           | Assembled text \<Rightarrow>
               (case output of
                  OutputNotFound \<Rightarrow> ([ErrorInputNotFound], None)
                | OutputRefused \<Rightarrow> ([ErrorException], None)
                | OutputOpens \<Rightarrow> ([InfoSaved], Some text))))"

text \<open>
  \<^verbatim>\<open>main\<close> (lines 113 to 128): \<^verbatim>\<open>sys.exit(1)\<close> when the input path does not exist;
  otherwise it calls \<^verbatim>\<open>anonymize_email_headers\<close> and returns, so the process exits
  with status 0.
\<close>

record run =
  exit_status :: nat
  logged :: "event list"
  written :: "string option"

definition main ::
  "'g faker \<Rightarrow> bool \<Rightarrow> input_file \<Rightarrow> output_file \<Rightarrow> bool \<Rightarrow> bool \<Rightarrow> 'g \<Rightarrow> run" where
  "main fake path_exists input output keep_x_mailer obfuscate_received g =
     (if \<not> path_exists then \<lparr>exit_status = 1, logged = [ErrorInputDoesNotExist], written = None\<rparr>
      else (let (msgs, out) =
                  anonymize_email_headers fake input output keep_x_mailer obfuscate_received g
            in \<lparr>exit_status = 0, logged = msgs, written = out\<rparr>))"

text \<open>A provider for concrete runs: its state counts the calls made so far.\<close>

definition digit_of :: "nat \<Rightarrow> char" where
  "digit_of n = ''0123456789'' ! (n mod 10)"

definition counting_faker :: "nat faker" where
  "counting_faker =
     \<lparr>fake_ipv4 = (\<lambda>n. (''203.0.113.'' @ [digit_of n], Suc n)),
      fake_domain_name = (\<lambda>n. (''example'' @ [digit_of n] @ ''.org'', Suc n)),
      fake_uuid4 = (\<lambda>n. (''0000-'' @ [digit_of n], Suc n)),
      fake_date_time = (\<lambda>n. (''2001-01-01 00:00:0'' @ [digit_of n], Suc n)),
      fake_name = (\<lambda>n. (''Person '' @ [digit_of n], Suc n)),
      fake_email = (\<lambda>n. (''user'' @ [digit_of n] @ ''@example.org'', Suc n))\<rparr>"

section \<open>Field names\<close>

text \<open>
  The program has no notion of a field name: it tests prefixes of the lowered line. The
  two definitions below follow the words of the specification, to be compared with the
  prefix tests: the field name of a line is its text before the first colon (the whole
  line when it has no colon), and the known table holds seven names.
\<close>

definition field_name :: "string \<Rightarrow> string" where
  "field_name header = takeWhile (\<lambda>c. c \<noteq> CHR '':'') header"

definition known_field_names :: "string list" where
  "known_field_names =
     [''Received'', ''X-Mailer'', ''Message-ID'', ''Date'', ''From'', ''To'', ''Reply-To'']"

text \<open>
  A continuation line, in the words of the specification: a physical line that begins
  with a space or a tab. The program has no such test.
\<close>

definition is_continuation :: "string \<Rightarrow> bool" where
  "is_continuation l = (case l of [] \<Rightarrow> False | c # _ \<Rightarrow> c = CHR '' '' \<or> c = CHR 0x09)"



section \<open>Facts about the text primitives\<close>

lemma startswith_Nil [simp]: "startswith s []"
  by (simp add: startswith_def)

lemma startswith_Cons_Cons [simp]:
  "startswith (x # xs) (p # ps) = (x = p \<and> startswith xs ps)"
  by (auto simp: startswith_def)

lemma startswith_Nil_Cons [simp]: "\<not> startswith [] (p # ps)"
  by (simp add: startswith_def)

lemma startswith_append: "startswith s p \<Longrightarrow> s = p @ drop (length p) s"
  by (metis append_take_drop_id startswith_def)







section \<open>The text read from the input file\<close>

lemma universal_newlines_no_CR: "CR \<notin> set (universal_newlines s)"
  by (induction s rule: universal_newlines.induct) simp_all

lemma universal_newlines_id: "CR \<notin> set s \<Longrightarrow> universal_newlines s = s"
  by (induction s) auto

lemma startswith_set: "startswith s p \<Longrightarrow> set p \<subseteq> set s"
  using startswith_append [of s p] by (metis Un_upper1 set_append)

lemma contains_set: "contains s sep \<Longrightarrow> set sep \<subseteq> set s"
proof (induction s)
  case Nil
  then show ?case by simp
next
  case (Cons x xs)
  from Cons.prems have "startswith (x # xs) sep \<or> contains xs sep" by simp
  then show ?case
  proof
    assume "startswith (x # xs) sep" then show ?thesis by (rule startswith_set)
  next
    assume "contains xs sep" from Cons.IH [OF this] show ?thesis by auto
  qed
qed

lemma no_CR_no_CRLF: "CR \<notin> set s \<Longrightarrow> \<not> contains s [CR, LF, CR, LF]"
  using contains_set [of s "[CR, LF, CR, LF]"] by auto


section \<open>No separator in the input\<close>

lemma no_separator_run:
  assumes "\<not> contains (universal_newlines decoded) [LF, LF]"
  shows "main fake True (Content decoded) output k ob g
         = \<lparr>exit_status = 0, logged = [ErrorNoSeparator], written = None\<rparr>"
  using assms no_CR_no_CRLF [OF universal_newlines_no_CR, of decoded]
  by (simp add: main_def anonymize_email_headers_def anonymize_text_def header_end_marker_def)

text \<open>
  Claim C4. An input text with neither separator must end the program with a non-zero
  exit status, a diagnostic, and no output file. On the text \<^verbatim>\<open>Subject: hello\<close> the
  program logs the diagnostic and writes nothing, whatever the output path, but its exit
  status is 0: line 54 returns to \<^verbatim>\<open>main\<close>, which ends normally, while the sibling
  check of line 126 exits with status 1.
\<close>

theorem no_separator_exit_status_zero:
  "main counting_faker True (Content ''Subject: hello'') output False False 0
   = \<lparr>exit_status = 0, logged = [ErrorNoSeparator], written = None\<rparr>"
  by (rule no_separator_run) simp

section \<open>The choice of the separator\<close>



section \<open>Prefix tests and field names\<close>

lemma lower_char_colon: "(lower_char c = CHR '':'') = (c = CHR '':'')"
proof
  assume a: "lower_char c = CHR '':''"
  show "c = CHR '':''"
  proof (rule ccontr)
    assume n: "c \<noteq> CHR '':''"
    with a have moved: "lower_char c = char_of ((of_char c :: nat) + 32)"
      and range: "65 \<le> (of_char c :: nat)" "(of_char c :: nat) \<le> 222"
      by (auto simp add: lower_char_def Let_def split: if_splits)
    from moved a have "(of_char (char_of ((of_char c :: nat) + 32)) :: nat) = of_char (CHR '':'')"
      by simp
    with range show False by simp
  qed
next
  assume "c = CHR '':''"
  then show "lower_char c = CHR '':''" by (simp add: lower_char_def)
qed

lemma field_name_lower: "field_name (lower header) = lower (field_name header)"
  by (induction header) (simp_all add: field_name_def lower_def lower_char_colon)

lemma lower_colon_mem: "(CHR '':'' \<in> set (lower header)) = (CHR '':'' \<in> set header)"
proof -
  have "(CHR '':'' = lower_char c) = (c = CHR '':'')" for c
    using lower_char_colon [of c] by auto
  then show ?thesis by (induction header) (auto simp add: lower_def)
qed

lemma startswith_field_name:
  assumes "CHR '':'' \<notin> set n"
  shows "startswith s (n @ '':'') = (CHR '':'' \<in> set s \<and> field_name s = n)"
  using assms
proof (induction n arbitrary: s)
  case Nil
  then show ?case by (cases s) (auto simp add: field_name_def)
next
  case (Cons a n)
  then show ?case by (cases s) (auto simp add: field_name_def)
qed

lemma prefix_test:
  assumes "CHR '':'' \<notin> set n"
  shows "startswith (lower header) (n @ '':'')
         = (CHR '':'' \<in> set header \<and> lower (field_name header) = n)"
  using startswith_field_name [OF assms, of "lower header"]
  by (simp add: field_name_lower lower_colon_mem)

lemma prefix_tests:
  "startswith (lower header) ''received:''
   = (CHR '':'' \<in> set header \<and> lower (field_name header) = ''received'')"
  "startswith (lower header) ''x-mailer:''
   = (CHR '':'' \<in> set header \<and> lower (field_name header) = ''x-mailer'')"
  "startswith (lower header) ''message-id:''
   = (CHR '':'' \<in> set header \<and> lower (field_name header) = ''message-id'')"
  "startswith (lower header) ''date:''
   = (CHR '':'' \<in> set header \<and> lower (field_name header) = ''date'')"
  "startswith (lower header) ''from:''
   = (CHR '':'' \<in> set header \<and> lower (field_name header) = ''from'')"
  "startswith (lower header) ''to:''
   = (CHR '':'' \<in> set header \<and> lower (field_name header) = ''to'')"
  "startswith (lower header) ''reply-to:''
   = (CHR '':'' \<in> set header \<and> lower (field_name header) = ''reply-to'')"
  using prefix_test [of "''received''" header] prefix_test [of "''x-mailer''" header]
    prefix_test [of "''message-id''" header] prefix_test [of "''date''" header]
    prefix_test [of "''from''" header] prefix_test [of "''to''" header]
    prefix_test [of "''reply-to''" header]
  by simp_all

lemma lower_known_field_names:
  "map lower known_field_names
   = [''received'', ''x-mailer'', ''message-id'', ''date'', ''from'', ''to'', ''reply-to'']"
  by (simp add: known_field_names_def lower_def lower_char_def char_of_eq_iff)

lemma process_headers_append:
  "process_headers fake k ob (pre @ post) g =
     (fst (process_headers fake k ob pre g)
        @ fst (process_headers fake k ob post (snd (process_headers fake k ob pre g))),
      snd (process_headers fake k ob post (snd (process_headers fake k ob pre g))))"
  by (induction pre arbitrary: g) (simp_all add: split_beta Let_def split: option.splits)

section \<open>Lines with an unknown field name\<close>

lemma unknown_process_header:
  assumes "lower (field_name header) \<notin> set (map lower known_field_names)"
  shows "process_header fake k ob header g = (Some header, g)"
proof -
  from assms show ?thesis
    unfolding lower_known_field_names process_header_def by (simp add: prefix_tests)
qed

text \<open>
  Claim C8. A line whose field name, lowered, is not the lowered form of one of the seven
  known names is kept: the lines the loop appends for \<open>pre @ header # post\<close> are those
  it appends for \<open>pre\<close>, then \<open>header\<close> itself, unchanged, then those it appends for
  \<open>post\<close>; the provider is not called for it (the state handed to \<open>post\<close> is the one
  \<open>pre\<close> left).
\<close>

theorem unknown_header_kept:
  assumes "lower (field_name header) \<notin> set (map lower known_field_names)"
  shows "process_headers fake k ob (pre @ header # post) g =
           (fst (process_headers fake k ob pre g)
              @ header # fst (process_headers fake k ob post (snd (process_headers fake k ob pre g))),
            snd (process_headers fake k ob post (snd (process_headers fake k ob pre g))))"
proof -
  have "process_headers fake k ob (header # post) g' =
          (header # fst (process_headers fake k ob post g'), snd (process_headers fake k ob post g'))"
    for g'
    by (simp add: unknown_process_header [OF assms] split_beta)
  then show ?thesis by (simp add: process_headers_append [of _ _ _ pre "header # post"])
qed

theorem unknown_header_kept_witness:
  "lower (field_name ''Subject: hello'') \<notin> set (map lower known_field_names)
   \<and> process_headers counting_faker False False
        ([''X-Mailer: m''] @ ''Subject: hello'' # [''Date: today'']) 0
      = ([''Subject: hello'', ''Date: 2001-01-01 00:00:00''], 1)"
proof -
  have h: "lower (field_name ''Subject: hello'') \<notin> set (map lower known_field_names)"
    unfolding lower_known_field_names
    by (simp add: field_name_def lower_def lower_char_def char_of_eq_iff)
  have pre: "process_headers counting_faker False False [''X-Mailer: m''] 0 = ([], 0)"
    by (simp add: process_header_def lower_def lower_char_def char_of_eq_iff)
  have post: "process_headers counting_faker False False [''Date: today''] 0
              = ([''Date: 2001-01-01 00:00:00''], Suc 0)"
    by (simp add: process_header_def lower_def lower_char_def char_of_eq_iff
        counting_faker_def digit_of_def)
  from unknown_header_kept [OF h, of counting_faker False False "[''X-Mailer: m'']"
      "[''Date: today'']" 0] h pre post
  show ?thesis by simp
qed

section \<open>Address headers\<close>

text \<open>
  Claim C9. A line whose field name is From, To or Reply-To in any mix of cases is
  replaced by the name as the program spells it, a colon and a space, the provider's
  name, a space, and the provider's address between angle brackets; the address holds
  an at sign whenever every address of the provider does. The name is asked for first,
  the address second.
\<close>

theorem address_header_shape:
  assumes "CHR '':'' \<in> set header"
    and "canon \<in> {''From'', ''To'', ''Reply-To''}"
    and "lower (field_name header) = lower canon"
    and "\<forall>g. CHR ''@'' \<in> set (fst (fake_email fake g))"
  shows "\<exists>name email g1 g2.
           fake_name fake g = (name, g1) \<and> fake_email fake g1 = (email, g2)
         \<and> process_header fake k ob header g
             = (Some (canon @ '': '' @ name @ '' <'' @ email @ ''>''), g2)
         \<and> CHR ''@'' \<in> set email"
proof -
  obtain name g1 where n: "fake_name fake g = (name, g1)" by (cases "fake_name fake g")
  obtain email g2 where e: "fake_email fake g1 = (email, g2)" by (cases "fake_email fake g1")
  from assms(4) e have at: "CHR ''@'' \<in> set email" by (metis fst_conv)
  have low: "lower ''From'' = ''from''" "lower ''To'' = ''to''" "lower ''Reply-To'' = ''reply-to''"
    by (simp_all add: lower_def lower_char_def char_of_eq_iff)
  from assms(2) consider "canon = ''From''" | "canon = ''To''" | "canon = ''Reply-To''" by auto
  then have "process_header fake k ob header g
             = (Some (canon @ '': '' @ name @ '' <'' @ email @ ''>''), g2)"
  proof cases
    case 1
    with assms(1,3) low show ?thesis
      unfolding process_header_def by (simp add: prefix_tests n e)
  next
    case 2
    with assms(1,3) low show ?thesis
      unfolding process_header_def by (simp add: prefix_tests n e)
  next
    case 3
    with assms(1,3) low show ?thesis
      unfolding process_header_def by (simp add: prefix_tests n e)
  qed
  with n e at show ?thesis by blast
qed

theorem address_header_shape_witness:
  "CHR '':'' \<in> set ''REPLY-to: Ann <ann@a.example>''
   \<and> ''Reply-To'' \<in> {''From'', ''To'', ''Reply-To''}
   \<and> lower (field_name ''REPLY-to: Ann <ann@a.example>'') = lower ''Reply-To''
   \<and> (\<forall>g. CHR ''@'' \<in> set (fst (fake_email counting_faker g)))
   \<and> process_header counting_faker False False ''REPLY-to: Ann <ann@a.example>'' 0
       = (Some ''Reply-To: Person 0 <user1@example.org>'', 2)"
proof -
  have h1: "CHR '':'' \<in> set ''REPLY-to: Ann <ann@a.example>''" by simp
  have h2: "''Reply-To'' \<in> {''From'', ''To'', ''Reply-To''}" by simp
  have "lower (field_name ''REPLY-to: Ann <ann@a.example>'') = ''reply-to''"
    and "lower ''Reply-To'' = ''reply-to''"
    by (simp_all add: field_name_def lower_def lower_char_def char_of_eq_iff)
  then have h3: "lower (field_name ''REPLY-to: Ann <ann@a.example>'') = lower ''Reply-To''"
    by simp
  have h4: "\<forall>g. CHR ''@'' \<in> set (fst (fake_email counting_faker g))"
    by (simp add: counting_faker_def)
  have n: "fake_name counting_faker 0 = (''Person 0'', 1)"
    and e: "fake_email counting_faker 1 = (''user1@example.org'', 2)"
    by (simp_all add: counting_faker_def digit_of_def)
  from address_header_shape [OF h1 h2 h3 h4, of 0 False False] n e
  have "process_header counting_faker False False ''REPLY-to: Ann <ann@a.example>'' 0
       = (Some ''Reply-To: Person 0 <user1@example.org>'', 2)"
    by auto
  with h1 h2 h3 h4 show ?thesis by blast
qed

section \<open>Physical lines\<close>




lemma splitlines_line:
  "\<not> list_ex is_linebreak l \<Longrightarrow> l \<noteq> [] \<Longrightarrow> splitlines l = [l]"
proof (induction l)
  case Nil
  then show ?case by simp
next
  case (Cons c l)
  then show ?case by (cases "l = []") simp_all
qed

lemma splitlines_append_LF:
  "\<not> list_ex is_linebreak l \<Longrightarrow> splitlines (l @ LF # rest) = l # splitlines rest"
  by (induction l) (simp_all add: is_linebreak_def)

lemma splitlines_join:
  assumes "\<forall>l \<in> set ls. \<not> list_ex is_linebreak l" and "ls \<noteq> [] \<longrightarrow> last ls \<noteq> []"
  shows "splitlines (join [LF] ls) = ls"
  using assms
proof (induction ls)
  case Nil
  then show ?case by simp
next
  case (Cons l ls)
  show ?case
  proof (cases ls)
    case Nil
    with Cons.prems show ?thesis by (simp add: splitlines_line)
  next
    case (Cons m ms)
    with Cons.prems Cons.IH show ?thesis by (simp add: splitlines_append_LF)
  qed
qed

lemma continuation_process_header:
  assumes "is_continuation l"
  shows "process_header fake k ob l g = (Some l, g)"
proof -
  from assms obtain c cs where l: "l = c # cs" and c: "c = CHR '' '' \<or> c = CHR 0x09"
    by (cases l) (auto simp add: is_continuation_def)
  from c have low: "lower l = c # lower cs"
    by (auto simp add: l lower_def lower_char_def)
  from c show ?thesis
  proof
    assume "c = CHR '' ''"
    with low show ?thesis unfolding process_header_def by simp
  next
    assume "c = CHR 0x09"
    with low show ?thesis unfolding process_header_def by simp
  qed
qed

section \<open>Continuation lines\<close>

text \<open>
  Claim C3, as stated: a line that begins with a space or a tab is joined to the record
  before it, so that there is one record per non-continuation line. The program does not
  join lines: \<^verbatim>\<open>splitlines()\<close> makes every physical line a record (line 57). Below, the
  block has one non-continuation line and two records, and the loop, which drops the
  X-Mailer line, keeps its continuation as a line of its own.
\<close>

theorem continuation_counterexample:
  "splitlines (''X-Mailer: a'' @ [LF] @ '' b'') = [''X-Mailer: a'', '' b'']
   \<and> filter (\<lambda>l. \<not> is_continuation l) (splitlines (''X-Mailer: a'' @ [LF] @ '' b''))
       = [''X-Mailer: a'']
   \<and> fst (process_headers counting_faker False False
             (splitlines (''X-Mailer: a'' @ [LF] @ '' b'')) 0) = ['' b'']"
  by (simp add: is_linebreak_def is_continuation_def process_header_def lower_def
      lower_char_def char_of_eq_iff)

text \<open>
  Claim C3, amended: every physical line of the header block is a record of its own.
  For lines that hold no line boundary, the last of them not empty, the records made
  from the lines joined by LF are these lines, one each; and a line that begins with a
  space or a tab is handed to the loop body on its own, which appends it unchanged and
  does not call the provider.
\<close>

theorem one_record_per_physical_line:
  assumes "\<forall>l \<in> set ls. \<not> list_ex is_linebreak l" and "ls \<noteq> [] \<longrightarrow> last ls \<noteq> []"
  shows "splitlines (join [LF] ls) = ls
       \<and> (\<forall>l \<in> set ls. is_continuation l \<longrightarrow> process_header fake k ob l g = (Some l, g))"
  by (simp add: splitlines_join [OF assms] continuation_process_header)

theorem one_record_per_physical_line_witness:
  "is_continuation '' b''
   \<and> splitlines (''Subject: a'' @ [LF] @ '' b'') = [''Subject: a'', '' b'']
   \<and> process_header counting_faker False False '' b'' 0 = (Some '' b'', 0)"
proof -
  have h1: "\<forall>l \<in> set [''Subject: a'', '' b'']. \<not> list_ex is_linebreak l"
    by (simp add: is_linebreak_def)
  have h2: "[''Subject: a'', '' b''] \<noteq> [] \<longrightarrow> last [''Subject: a'', '' b''] \<noteq> []"
    by simp
  have c: "is_continuation '' b''" by (simp add: is_continuation_def)
  from one_record_per_physical_line [OF h1 h2, of counting_faker False False 0] c
  have "splitlines (''Subject: a'' @ [LF] @ '' b'') = [''Subject: a'', '' b'']
        \<and> process_header counting_faker False False '' b'' 0 = (Some '' b'', 0)"
    by simp
  with c show ?thesis by blast
qed

section \<open>Splitting and assembling without rewriting\<close>







section \<open>The pieces of a substitution\<close>




section \<open>What the hostname pattern matches\<close>

lemma matches_Plus_Cls_Nil: "matches (Plus (Cls rs)) (p, []) = []"
  by (subst matches.simps(7)) (simp add: matches.simps(2))

lemma matches_Plus_Cls_Cons:
  "matches (Plus (Cls rs)) (p, x # xs) =
     (if in_class rs x then matches (Plus (Cls rs)) (Some x, xs) @ [(Some x, xs)] else [])"
  by (subst matches.simps(7)) (simp add: matches.simps(2))

lemma plus_cls_none:
  "takeWhile (in_class rs) xs = [] \<Longrightarrow> matches (Plus (Cls rs)) (p, xs) = []"
  by (cases xs) (simp_all add: matches_Plus_Cls_Nil matches_Plus_Cls_Cons split: if_splits)

lemma plus_cls_run:
  "takeWhile (in_class rs) xs \<noteq> [] \<Longrightarrow>
   \<exists>rest. matches (Plus (Cls rs)) (p, xs)
          = (Some (last (takeWhile (in_class rs) xs)), dropWhile (in_class rs) xs) # rest"
proof (induction xs arbitrary: p)
  case Nil
  then show ?case by simp
next
  case (Cons x xs)
  from Cons.prems have x: "in_class rs x" by (simp split: if_splits)
  show ?case
  proof (cases "takeWhile (in_class rs) xs = []")
    case True
    have "dropWhile (in_class rs) xs = xs"
      using True takeWhile_dropWhile_id [of "in_class rs" xs] by simp
    with x True show ?thesis
      by (simp add: matches_Plus_Cls_Cons plus_cls_none)
  next
    case False
    from Cons.IH [OF False, of "Some x"] obtain rest where
      "matches (Plus (Cls rs)) (Some x, xs)
       = (Some (last (takeWhile (in_class rs) xs)), dropWhile (in_class rs) xs) # rest"
      by blast
    with x False show ?thesis by (simp add: matches_Plus_Cls_Cons)
  qed
qed

lemma first_match_head:
  assumes "matches r cur = e # rest" and "length (snd e) < length (snd cur)"
  shows "first_match r adv cur = Some e"
  using assms by (simp add: first_match_def split_beta)

lemma first_match_Nil: "matches r cur = [] \<Longrightarrow> first_match r adv cur = None"
  by (simp add: first_match_def)

lemma hostname_tail:
  "matches (Seq (Group (Plus (Cls rs))) (Opt (Chr CHR '']''))) (p, ys) =
     (if takeWhile (in_class rs) ys = [] then []
      else concat (map (matches (Opt (Chr CHR '']''))) (matches (Plus (Cls rs)) (p, ys))))"
  by (simp add: matches.simps(4,10) plus_cls_none)

lemma hostname_tail_head:
  assumes "takeWhile (in_class rs) ys \<noteq> []"
  shows "\<exists>rest. matches (Seq (Group (Plus (Cls rs))) (Opt (Chr CHR '']''))) (p, ys)
           = (case dropWhile (in_class rs) ys of
                [] \<Rightarrow> (Some (last (takeWhile (in_class rs) ys)), [])
              | c # cs \<Rightarrow> if c = CHR '']'' then (Some c, cs)
                          else (Some (last (takeWhile (in_class rs) ys)), c # cs)) # rest"
proof -
  define w where "w = takeWhile (in_class rs) ys"
  define zs where "zs = dropWhile (in_class rs) ys"
  from plus_cls_run [OF assms, of p] obtain rest where
    m: "matches (Plus (Cls rs)) (p, ys) = (Some (last w), zs) # rest"
    unfolding w_def zs_def by blast
  from assms m have
    "matches (Seq (Group (Plus (Cls rs))) (Opt (Chr CHR '']''))) (p, ys)
     = matches (Opt (Chr CHR '']'')) (Some (last w), zs)
       @ concat (map (matches (Opt (Chr CHR '']''))) rest)"
    by (simp add: hostname_tail)
  then show ?thesis
    unfolding w_def [symmetric] zs_def [symmetric]
    by (cases zs) (simp_all add: matches.simps(1,6))
qed


lemma length_dropWhile_less:
  "takeWhile P ys \<noteq> [] \<Longrightarrow> length (dropWhile P ys) < length ys"
  using takeWhile_dropWhile_id [of P ys]
  by (metis add.commute length_append length_greater_0_conv less_add_same_cancel1)

lemma tail_end_length:
  "length (snd (case zs of [] \<Rightarrow> (a, []) | c # cs \<Rightarrow> if c = k then (Some c, cs) else (b, c # cs)))
   \<le> length zs"
  by (cases zs) simp_all

lemma hostname_tail_first:
  assumes "takeWhile (in_class rs) ys \<noteq> []" and "length ys \<le> length xs"
    and m: "matches r (p, xs)
            = matches (Seq (Group (Plus (Cls rs))) (Opt (Chr CHR '']''))) (q, ys) @ others"
  shows "first_match r adv (p, xs) =
           Some (case dropWhile (in_class rs) ys of
                   [] \<Rightarrow> (Some (last (takeWhile (in_class rs) ys)), [])
                 | c # cs \<Rightarrow> if c = CHR '']'' then (Some c, cs)
                             else (Some (last (takeWhile (in_class rs) ys)), c # cs))"
proof -
  let ?e = "case dropWhile (in_class rs) ys of
              [] \<Rightarrow> (Some (last (takeWhile (in_class rs) ys)), [])
            | c # cs \<Rightarrow> if c = CHR '']'' then (Some c, cs)
                        else (Some (last (takeWhile (in_class rs) ys)), c # cs)"
  from hostname_tail_head [OF assms(1), of q] obtain rest where
    "matches (Seq (Group (Plus (Cls rs))) (Opt (Chr CHR '']''))) (q, ys) = ?e # rest"
    by blast
  with m have h: "matches r (p, xs) = ?e # (rest @ others)" by simp
  have "length (snd ?e) \<le> length (dropWhile (in_class rs) ys)"
    by (rule tail_end_length)
  with length_dropWhile_less [OF assms(1)] assms(2)
  have "length (snd ?e) < length (snd (p, xs))" by simp
  from first_match_head [OF h this] show ?thesis .
qed


lemma first_match_bracketed:
  assumes nb: "\<not> in_class rs CHR ''[''"
  shows "first_match (Seq (Opt (Chr CHR ''['')) (Seq (Group (Plus (Cls rs))) (Opt (Chr CHR '']''))))
           adv (p, xs) =
     (let ys = (case xs of [] \<Rightarrow> [] | c # cs \<Rightarrow> if c = CHR ''['' then cs else xs) in
      if takeWhile (in_class rs) ys = [] then None
      else Some (case dropWhile (in_class rs) ys of
                   [] \<Rightarrow> (Some (last (takeWhile (in_class rs) ys)), [])
                 | c # cs \<Rightarrow> if c = CHR '']'' then (Some c, cs)
                             else (Some (last (takeWhile (in_class rs) ys)), c # cs)))"
proof -
  let ?B = "Seq (Group (Plus (Cls rs))) (Opt (Chr CHR '']''))"
  let ?R = "Seq (Opt (Chr CHR ''['')) ?B"
  show ?thesis
  proof (cases "\<exists>cs. xs = CHR ''['' # cs")
    case True
    then obtain cs where xs: "xs = CHR ''['' # cs" by blast
    from nb have "matches ?B (p, CHR ''['' # cs) = []" by (simp add: hostname_tail)
    then have m: "matches ?R (p, xs) = matches ?B (Some CHR ''['', cs) @ []"
      by (simp add: xs matches.simps(4) [of "Opt (Chr CHR ''['')"] matches.simps(6,1))
    show ?thesis
    proof (cases "takeWhile (in_class rs) cs = []")
      case True
      with m have "matches ?R (p, xs) = []" by (simp add: hostname_tail)
      from first_match_Nil [OF this] True xs show ?thesis by simp
    next
      case False
      have "length cs \<le> length xs" by (simp add: xs)
      from hostname_tail_first [OF False this m] False xs show ?thesis by simp
    qed
  next
    case False
    then have ys: "(case xs of [] \<Rightarrow> [] | c # cs \<Rightarrow> if c = CHR ''['' then cs else xs) = xs"
      by (cases xs) auto
    from False have m: "matches ?R (p, xs) = matches ?B (p, xs) @ []"
      by (cases xs) (auto simp add: matches.simps(4) [of "Opt (Chr CHR ''['')"] matches.simps(6,1))
    show ?thesis
    proof (cases "takeWhile (in_class rs) xs = []")
      case True
      with m have "matches ?R (p, xs) = []" by (simp add: hostname_tail)
      from first_match_Nil [OF this] True ys show ?thesis by simp
    next
      case False
      from hostname_tail_first [OF False le_refl m] False ys show ?thesis by simp
    qed
  qed
qed

lemma first_match_hostname:
  "first_match hostname_pattern adv (p, xs) =
     (let rs = [(CHR ''a'', CHR ''z''), (CHR ''A'', CHR ''Z''), (CHR ''0'', CHR ''9''),
                (CHR ''.'', CHR ''.''), (CHR ''-'', CHR ''-'')];
          ys = (case xs of [] \<Rightarrow> [] | c # cs \<Rightarrow> if c = CHR ''['' then cs else xs) in
      if takeWhile (in_class rs) ys = [] then None
      else Some (case dropWhile (in_class rs) ys of
                   [] \<Rightarrow> (Some (last (takeWhile (in_class rs) ys)), [])
                 | c # cs \<Rightarrow> if c = CHR '']'' then (Some c, cs)
                             else (Some (last (takeWhile (in_class rs) ys)), c # cs)))"
  unfolding hostname_pattern_def Let_def
  by (rule first_match_bracketed [unfolded Let_def]) (simp add: in_class_def)

section \<open>Where the address pattern cannot match\<close>

lemma Times_3: "Times 3 r = Times (Suc (Suc (Suc 0))) r"
  by (simp add: numeral_3_eq_3)

lemma octet_Nil: "matches octet (p, []) = []"
  by (simp add: octet_def digit_def matches.simps(1-6,8-10))

lemma octet_no_digit:
  assumes "\<not> in_class [(CHR ''0'', CHR ''9'')] x"
  shows "matches octet (p, x # xs) = []"
proof -
  from assms have "x \<noteq> CHR ''2''" "\<not> in_class [(CHR ''0'', CHR ''1'')] x"
    by (auto simp add: in_class_def)
  with assms show ?thesis
    by (simp add: octet_def digit_def matches.simps(1-6,8-10))
qed

lemma ip_none:
  assumes "case xs of [] \<Rightarrow> True | x # _ \<Rightarrow> \<not> in_class [(CHR ''0'', CHR ''9'')] x"
  shows "first_match ip_address_pattern adv (p, xs) = None"
proof -
  from assms have "matches octet (q, xs) = []" for q
    by (cases xs) (simp_all add: octet_Nil octet_no_digit)
  then have "matches ip_address_pattern (p, xs) = []"
    by (simp add: ip_address_pattern_def Times_3 matches.simps(3,4,9,10))
  then show ?thesis by (simp add: first_match_def)
qed

section \<open>The example line of the specification\<close>

lemma example_ip_first:
  "first_match ip_address_pattern False
     (Some CHR ''('', ''192.168.1.10) by relay.test (10.0.0.5)'')
   = Some (Some CHR ''0'', '') by relay.test (10.0.0.5)'')"
  by (simp add: first_match_def ip_address_pattern_def Times_3 octet_def digit_def
      matches.simps(1-6,8-10) in_class_def at_boundary_def is_word_def)

lemma example_ip_second:
  "first_match ip_address_pattern False (Some CHR ''('', ''10.0.0.5)'')
   = Some (Some CHR ''5'', '')'')"
  by (simp add: first_match_def ip_address_pattern_def Times_3 octet_def digit_def
      matches.simps(1-6,8-10) in_class_def at_boundary_def is_word_def)

lemma example_ip_pass:
  "re_sub ip_address_pattern ''203.0.113.0''
     ''Received: from mail.example.com (192.168.1.10) by relay.test (10.0.0.5)''
   = ''Received: from mail.example.com (203.0.113.0) by relay.test (203.0.113.0)''"
  by (simp add: re_sub_def render_def sub_scan.simps ip_none example_ip_first
      example_ip_second in_class_def)

lemma example_hostname_pass:
  "re_sub hostname_pattern ''example1.org''
     ''Received: from mail.example.com (203.0.113.0) by relay.test (203.0.113.0)''
   = ''example1.org: example1.org example1.org (example1.org) example1.org example1.org (example1.org)''"
  by (simp add: re_sub_def render_def sub_scan.simps first_match_hostname in_class_def)

text \<open>
  Claim C1. The example line, obfuscated, must still begin with \<^verbatim>\<open>Received:\<close>. With
  the provider that answers \<^verbatim>\<open>203.0.113.0\<close> and then \<^verbatim>\<open>example1.org\<close>, the loop body
  appends a line in which both addresses and both host names are replaced, and so is
  every other run of letters, digits, dots and hyphens, the field name among them: the
  line begins with the domain name, not with \<^verbatim>\<open>Received:\<close>.
\<close>

theorem example_line_loses_its_name:
  "process_header counting_faker False True
     ''Received: from mail.example.com (192.168.1.10) by relay.test (10.0.0.5)'' 0
   = (Some ''example1.org: example1.org example1.org (example1.org) example1.org example1.org (example1.org)'', 2)
   \<and> \<not> startswith
         ''example1.org: example1.org example1.org (example1.org) example1.org example1.org (example1.org)''
         ''Received:''"
proof -
  have v: "fake_ipv4 counting_faker 0 = (''203.0.113.0'', 1)"
    and d: "fake_domain_name counting_faker (Suc 0) = (''example1.org'', 2)"
    by (simp_all add: counting_faker_def digit_of_def)
  have r: "startswith
             (lower ''Received: from mail.example.com (192.168.1.10) by relay.test (10.0.0.5)'')
             ''received:''"
    by (simp add: lower_def lower_char_def char_of_eq_iff)
  have "obfuscate_received_header counting_faker
          ''Received: from mail.example.com (192.168.1.10) by relay.test (10.0.0.5)'' 0
        = (''example1.org: example1.org example1.org (example1.org) example1.org example1.org (example1.org)'', 2)"
    by (simp add: obfuscate_received_header_def v d example_ip_pass example_hostname_pass)
  with r show ?thesis unfolding process_header_def by simp
qed

section \<open>Counting the Received lines of the output\<close>

lemma startswith_lower: "startswith h p \<Longrightarrow> startswith (lower h) (lower p)"
  unfolding startswith_def lower_def by (metis length_map take_map)

lemma received_prefix_lower:
  "startswith h ''Received:'' \<Longrightarrow> startswith (lower h) ''received:''"
proof -
  have "lower ''Received:'' = ''received:''"
    by (simp add: lower_def lower_char_def char_of_eq_iff)
  with startswith_lower [of h "''Received:''"] show "startswith h ''Received:'' \<Longrightarrow> ?thesis"
    by simp
qed

lemma removed_process_header:
  assumes "process_header fake k False h g = (Some l, g')"
  shows "\<not> startswith l ''Received:''"
proof
  assume s: "startswith l ''Received:''"
  from assms show False
    unfolding process_header_def
    using s received_prefix_lower [of h]
    by (auto simp add: split_beta Let_def split: if_splits)
qed

lemma removed_process_headers:
  "l \<in> set (fst (process_headers fake k False hs g)) \<Longrightarrow> \<not> startswith l ''Received:''"
proof (induction hs arbitrary: g)
  case Nil
  then show ?case by simp
next
  case (Cons h hs)
  obtain r g1 where p: "process_header fake k False h g = (r, g1)"
    by (cases "process_header fake k False h g")
  show ?case
  proof (cases r)
    case None
    with Cons.prems p have "l \<in> set (fst (process_headers fake k False hs g1))"
      by (simp add: split_beta)
    from Cons.IH [OF this] show ?thesis .
  next
    case (Some l')
    with Cons.prems p have "l = l' \<or> l \<in> set (fst (process_headers fake k False hs g1))"
      by (simp add: split_beta)
    then show ?thesis
    proof
      assume "l = l'"
      with p Some removed_process_header [of fake k h g l' g1] show ?thesis by simp
    next
      assume "l \<in> set (fst (process_headers fake k False hs g1))"
      from Cons.IH [OF this] show ?thesis .
    qed
  qed
qed

lemma short_ip_pass:
  "re_sub ip_address_pattern ''203.0.113.0'' ''Received: by relay.test (10.0.0.5)''
   = ''Received: by relay.test (203.0.113.0)''"
  by (simp add: re_sub_def render_def sub_scan.simps ip_none example_ip_second in_class_def)

lemma short_hostname_pass:
  "re_sub hostname_pattern ''example1.org'' ''Received: by relay.test (203.0.113.0)''
   = ''example1.org: example1.org example1.org (example1.org)''"
  by (simp add: re_sub_def render_def sub_scan.simps first_match_hostname in_class_def)

text \<open>
  Claim C7. With obfuscation, as many output lines as the input has Received headers
  must begin with \<^verbatim>\<open>Received:\<close>. The header lines below hold one Received header; the
  loop keeps it, obfuscated, and the line it appends begins with the domain name: no
  output line begins with \<^verbatim>\<open>Received:\<close>. (Without obfuscation no output line does
  either, as claimed: lemma \<open>removed_process_headers\<close>.)
\<close>

theorem obfuscated_received_not_counted:
  "process_headers counting_faker False True
     [''Received: by relay.test (10.0.0.5)'', ''Subject: hello''] 0
   = ([''example1.org: example1.org example1.org (example1.org)'', ''Subject: hello''], 2)
   \<and> length (filter (\<lambda>h. startswith (lower h) ''received:'')
               [''Received: by relay.test (10.0.0.5)'', ''Subject: hello'']) = 1
   \<and> length (filter (\<lambda>l. startswith l ''Received:'')
               [''example1.org: example1.org example1.org (example1.org)'', ''Subject: hello'']) = 0"
proof -
  have v: "fake_ipv4 counting_faker 0 = (''203.0.113.0'', 1)"
    and d: "fake_domain_name counting_faker (Suc 0) = (''example1.org'', 2)"
    by (simp_all add: counting_faker_def digit_of_def)
  have o: "obfuscate_received_header counting_faker ''Received: by relay.test (10.0.0.5)'' 0
           = (''example1.org: example1.org example1.org (example1.org)'', 2)"
    by (simp add: obfuscate_received_header_def v d short_ip_pass short_hostname_pass)
  have r: "lower ''Received: by relay.test (10.0.0.5)'' = ''received: by relay.test (10.0.0.5)''"
    and s: "lower ''Subject: hello'' = ''subject: hello''"
    by (simp_all add: lower_def lower_char_def char_of_eq_iff)
  have h1: "process_header counting_faker False True ''Received: by relay.test (10.0.0.5)'' 0
            = (Some ''example1.org: example1.org example1.org (example1.org)'', 2)"
    unfolding process_header_def r by (simp add: o)
  have h2: "process_header counting_faker False True ''Subject: hello'' 2
            = (Some ''Subject: hello'', 2)"
    unfolding process_header_def s by simp
  have "process_headers counting_faker False True
          [''Received: by relay.test (10.0.0.5)'', ''Subject: hello''] 0
        = ([''example1.org: example1.org example1.org (example1.org)'', ''Subject: hello''], 2)"
    by (simp add: h1 h2)
  then show ?thesis by (simp add: r s)
qed

end
